theory Spec2Isabelle
  imports Main "HOL-Library.AList"
begin

section \<open>netdisco: the discovery coordinator (\<^verbatim>\<open>netdisco/discovery.py\<close>)\<close>

text \<open>
  The class \<^verbatim>\<open>NetworkDiscovery\<close> owns a background scanner (\<^verbatim>\<open>self.mdns\<close>), a
  foreground scanner (\<^verbatim>\<open>self.ssdp\<close>), a dictionary of checkers
  (\<^verbatim>\<open>self.discoverables\<close>) and the flag \<^verbatim>\<open>self.is_discovering\<close>. Methods that
  assign to \<^verbatim>\<open>self\<close> take the object and return the updated one; a method that can
  raise returns a sum whose left injection is the exception.
\<close>

subsection \<open>Exceptions\<close>

text \<open>
  \<^verbatim>\<open>RuntimeError\<close> is raised by \<^verbatim>\<open>_check_enabled\<close>, \<^verbatim>\<open>KeyError\<close> by a dictionary
  subscript on a missing key, \<^verbatim>\<open>IndexError\<close> by a list subscript out of range.
  \<open>Propagated e\<close> is an exception \<open>e\<close> raised inside a collaborator (the foreground
  scanner, the import of a plugin) that no \<^verbatim>\<open>try\<close> of the class catches.
\<close>

datatype 'e error =
    RuntimeError string
  | KeyError string
  | IndexError
  | Propagated 'e

subsection \<open>Collaborators\<close>

text \<open>
  A checker is an instance of a plugin's \<^verbatim>\<open>Discoverable\<close> class. It is built with a
  reference to the coordinator and reads \<^verbatim>\<open>mdns.entries\<close> and \<^verbatim>\<open>ssdp.entries\<close>
  through it when asked, so each of its three methods is a function of the two scanners'
  current states.
\<close>

record ('m, 's, 'r) Discoverable =
  is_discovered :: "'m \<Rightarrow> 's \<Rightarrow> bool"
  dis_get_info :: "'m \<Rightarrow> 's \<Rightarrow> 'r list"
  dis_get_entries :: "'m \<Rightarrow> 's \<Rightarrow> 'r list"

text \<open>
  Modelled from the spec: the classes \<^verbatim>\<open>MDNS\<close> and \<^verbatim>\<open>SSDP\<close>, the plugin modules and
  the package walk are not part of \<^verbatim>\<open>discovery.py\<close>; they are parameters here.
  \<open>mdns_new\<close> and \<open>ssdp_new\<close> are the states of freshly constructed scanners.
  \<open>mdns_start\<close> and \<open>mdns_stop\<close> update the background scanner and have no failure
  mode (section 4.2). \<open>ssdp_scan\<close> returns the exception it raised, if any, with the
  foreground scanner's state after the call (section 4.3). \<open>walk_packages\<close> is the
  sequence of package names that \<^verbatim>\<open>pkgutil.walk_packages\<close> yields, and
  \<open>import_module pkg\<close> is the checker obtained from
  \<^verbatim>\<open>importlib.import_module(pkg).Discoverable(self)\<close>, or the exception raised on
  the way.
\<close>

record ('m, 's, 'r, 'e) env =
  mdns_new :: 'm
  ssdp_new :: 's
  mdns_start :: "'m \<Rightarrow> 'm"
  mdns_stop :: "'m \<Rightarrow> 'm"
  ssdp_scan :: "'s \<Rightarrow> 'e option \<times> 's"
  walk_packages :: "string list"
  import_module :: "string \<Rightarrow> 'e + ('m, 's, 'r) Discoverable"

subsection \<open>The coordinator object\<close>

text \<open>
  The calls made on the two scanners are recorded, oldest first, in \<open>calls\<close>; it is
  the only field that is not an attribute of the Python object.
\<close>

datatype call = MDNS_start | MDNS_stop | SSDP_scan

text \<open>
  \<^verbatim>\<open>self.discoverables\<close> is a dictionary: an association list with unique keys, in
  the order of first insertion, which is the order \<^verbatim>\<open>.items()\<close> iterates in.
\<close>

record ('m, 's, 'r) NetworkDiscovery =
  limit_discovery :: "string list option"
  mdns :: 'm
  ssdp :: 's
  discoverables :: "(string \<times> ('m, 's, 'r) Discoverable) list"
  is_discovering :: bool
  calls :: "call list"

subsection \<open>String helpers of the loader\<close>

text \<open>\<^verbatim>\<open>s.endswith(suf)\<close>.\<close>

definition endswith :: "string \<Rightarrow> string \<Rightarrow> bool" where
  "endswith s suf = (length suf \<le> length s \<and> drop (length s - length suf) s = suf)"

text \<open>
  \<^verbatim>\<open>s.rsplit(sep, 1)\<close> for a one-character separator: the string is cut at the last
  occurrence of \<open>sep\<close>; a string without \<open>sep\<close> comes back alone.
\<close>

definition rsplit1 :: "string \<Rightarrow> char \<Rightarrow> string list" where
  "rsplit1 s sep =
     (if sep \<in> set s
      then [rev (tl (dropWhile (\<lambda>c. c \<noteq> sep) (rev s))), rev (takeWhile (\<lambda>c. c \<noteq> sep) (rev s))]
      else [s])"

subsection \<open>\<^verbatim>\<open>_load_device_support\<close>\<close>

text \<open>
  One round of the \<^verbatim>\<open>for\<close> loop. \<^verbatim>\<open>continue\<close> hands the dictionary on unchanged.
  In the assignment \<^verbatim>\<open>self.discoverables[parts[1]] = module.Discoverable(self)\<close> the
  right-hand side is evaluated before the subscript \<^verbatim>\<open>parts[1]\<close>.
\<close>

definition load_body ::
  "('m, 's, 'r, 'e) env \<Rightarrow> string list option \<Rightarrow> string
    \<Rightarrow> (string \<times> ('m, 's, 'r) Discoverable) list
    \<Rightarrow> 'e error + (string \<times> ('m, 's, 'r) Discoverable) list" where
  "load_body E limit pkg reg =
     (let parts = rsplit1 pkg CHR ''.'' in
      if \<not> endswith (parts ! 0) ''netdisco.discoverables'' then Inr reg
      else if (case limit of None \<Rightarrow> False | Some l \<Rightarrow> pkg \<notin> set l) then Inr reg
      else (case import_module E pkg of
              Inl e \<Rightarrow> Inl (Propagated e)
            | Inr checker \<Rightarrow>
                if length parts < 2 then Inl IndexError
                else Inr (AList.update (parts ! 1) checker reg)))"

fun load_loop ::
  "('m, 's, 'r, 'e) env \<Rightarrow> string list option \<Rightarrow> string list
    \<Rightarrow> (string \<times> ('m, 's, 'r) Discoverable) list
    \<Rightarrow> 'e error + (string \<times> ('m, 's, 'r) Discoverable) list" where
  "load_loop E limit [] reg = Inr reg"
| "load_loop E limit (pkg # pkgs) reg =
     (case load_body E limit pkg reg of
        Inl e \<Rightarrow> Inl e
      | Inr reg' \<Rightarrow> load_loop E limit pkgs reg')"

text \<open>
  The method starts from the empty dictionary and reads \<^verbatim>\<open>self.limit_discovery\<close>;
  its result is the dictionary it leaves in \<^verbatim>\<open>self.discoverables\<close>.
\<close>

definition load_device_support ::
  "('m, 's, 'r, 'e) env \<Rightarrow> string list option
    \<Rightarrow> 'e error + (string \<times> ('m, 's, 'r) Discoverable) list" where
  "load_device_support E limit = load_loop E limit (walk_packages E) []"

subsection \<open>\<^verbatim>\<open>__init__\<close>\<close>

text \<open>
  The constructor stores the limit, builds the two scanners, loads the checkers and only
  then sets \<^verbatim>\<open>is_discovering\<close> to \<^verbatim>\<open>False\<close>. An exception of the loader leaves no
  object.
\<close>

definition new ::
  "('m, 's, 'r, 'e) env \<Rightarrow> string list option \<Rightarrow> 'e error + ('m, 's, 'r) NetworkDiscovery" where
  "new E limit =
     (case load_device_support E limit of
        Inl e \<Rightarrow> Inl e
      | Inr reg \<Rightarrow>
          Inr \<lparr>limit_discovery = limit, mdns = mdns_new E, ssdp = ssdp_new E,
               discoverables = reg, is_discovering = False, calls = []\<rparr>)"

subsection \<open>\<^verbatim>\<open>scan\<close> and \<^verbatim>\<open>stop\<close>\<close>

definition scan ::
  "('m, 's, 'r, 'e) env \<Rightarrow> ('m, 's, 'r) NetworkDiscovery
    \<Rightarrow> ('e error + unit) \<times> ('m, 's, 'r) NetworkDiscovery" where
  "scan E self =
     (let self1 =
            (if \<not> is_discovering self
             then self\<lparr>mdns := mdns_start E (mdns self),
                       calls := calls self @ [MDNS_start],
                       is_discovering := True\<rparr>
             else self);
          r = ssdp_scan E (ssdp self1);
          self2 = self1\<lparr>ssdp := snd r, calls := calls self1 @ [SSDP_scan]\<rparr>
      in (case fst r of Some e \<Rightarrow> (Inl (Propagated e), self2) | None \<Rightarrow> (Inr (), self2)))"

definition stop ::
  "('m, 's, 'r, 'e) env \<Rightarrow> ('m, 's, 'r) NetworkDiscovery \<Rightarrow> ('m, 's, 'r) NetworkDiscovery" where
  "stop E self =
     (if \<not> is_discovering self then self
      else self\<lparr>mdns := mdns_stop E (mdns self),
                calls := calls self @ [MDNS_stop],
                is_discovering := False\<rparr>)"

subsection \<open>The queries\<close>

definition check_enabled :: "('m, 's, 'r) NetworkDiscovery \<Rightarrow> 'e error + unit" where
  "check_enabled self =
     (if \<not> is_discovering self then Inl (RuntimeError ''NetworkDiscovery is disabled'')
      else Inr ())"

definition discover :: "('m, 's, 'r) NetworkDiscovery \<Rightarrow> 'e error + string list" where
  "discover self =
     (case check_enabled self of
        Inl e \<Rightarrow> Inl e
      | Inr _ \<Rightarrow>
          Inr (map fst (filter (\<lambda>(dis, checker). is_discovered checker (mdns self) (ssdp self))
                               (discoverables self))))"

definition get_info :: "('m, 's, 'r) NetworkDiscovery \<Rightarrow> string \<Rightarrow> 'e error + 'r list" where
  "get_info self dis =
     (case map_of (discoverables self) dis of
        None \<Rightarrow> Inl (KeyError dis)
      | Some checker \<Rightarrow> Inr (dis_get_info checker (mdns self) (ssdp self)))"

definition get_entries :: "('m, 's, 'r) NetworkDiscovery \<Rightarrow> string \<Rightarrow> 'e error + 'r list" where
  "get_entries self dis =
     (case map_of (discoverables self) dis of
        None \<Rightarrow> Inl (KeyError dis)
      | Some checker \<Rightarrow> Inr (dis_get_entries checker (mdns self) (ssdp self)))"

subsection \<open>Sequences of calls\<close>

text \<open>
  \<open>scan_times E n\<close> is \<open>n\<close> consecutive calls of \<^verbatim>\<open>scan()\<close> with no call of
  \<^verbatim>\<open>stop()\<close> between them; a caller that catches an exception of one call goes on
  with the object as that call left it.
\<close>

fun scan_times ::
  "('m, 's, 'r, 'e) env \<Rightarrow> nat \<Rightarrow> ('m, 's, 'r) NetworkDiscovery \<Rightarrow> ('m, 's, 'r) NetworkDiscovery" where
  "scan_times E 0 self = self"
| "scan_times E (Suc n) self = scan_times E n (snd (scan E self))"

text \<open>The public operations, what a call returns, and the object after a call.\<close>

datatype op = Scan | Stop | Discover | Get_info string | Get_entries string

datatype 'r returned = Returned_None | Returned_names "string list" | Returned_records "'r list"

definition call_op ::
  "('m, 's, 'r, 'e) env \<Rightarrow> op \<Rightarrow> ('m, 's, 'r) NetworkDiscovery
    \<Rightarrow> ('e error + 'r returned) \<times> ('m, 's, 'r) NetworkDiscovery" where
  "call_op E oper self =
     (case oper of
        Scan \<Rightarrow> (map_sum id (\<lambda>_. Returned_None) (fst (scan E self)), snd (scan E self))
      | Stop \<Rightarrow> (Inr Returned_None, stop E self)
      | Discover \<Rightarrow> (map_sum id Returned_names (discover self), self)
      | Get_info dis \<Rightarrow> (map_sum id Returned_records (get_info self dis), self)
      | Get_entries dis \<Rightarrow> (map_sum id Returned_records (get_entries self dis), self))"

fun run ::
  "('m, 's, 'r, 'e) env \<Rightarrow> op list \<Rightarrow> ('m, 's, 'r) NetworkDiscovery \<Rightarrow> ('m, 's, 'r) NetworkDiscovery" where
  "run E [] self = self"
| "run E (oper # opers) self = run E opers (snd (call_op E oper self))"

subsection \<open>What the loader does with one package name\<close>

text \<open>
  The loop keeps a package when the part before its last dot ends with
  \<^verbatim>\<open>netdisco.discoverables\<close> and, if a limit is given, the whole package name is in the
  limit; the key it stores the checker under is the part after the last dot.
\<close>

definition in_namespace :: "string \<Rightarrow> bool" where
  "in_namespace pkg = endswith (rsplit1 pkg CHR ''.'' ! 0) ''netdisco.discoverables''"

definition type_name :: "string \<Rightarrow> string" where
  "type_name pkg = rsplit1 pkg CHR ''.'' ! 1"

definition kept :: "string list option \<Rightarrow> string \<Rightarrow> bool" where
  "kept limit pkg =
     (in_namespace pkg \<and> (case limit of None \<Rightarrow> True | Some l \<Rightarrow> pkg \<in> set l))"

subsection \<open>Stub collaborators\<close>

text \<open>
  The scenario of section 8 of the specification: scanner states are lists of records,
  \<open>TypeA\<close> reports discovered when the background store is not empty, \<open>TypeB\<close> never
  does. Starting the background stub seeds its store with one record. The foreground
  stub either adds one record to its store or raises a timeout and keeps its store.
\<close>

definition TypeA :: "(string list, string list, string) Discoverable" where
  "TypeA = \<lparr>is_discovered = (\<lambda>m s. m \<noteq> []), dis_get_info = (\<lambda>m s. m),
            dis_get_entries = (\<lambda>m s. m @ s)\<rparr>"

definition TypeB :: "(string list, string list, string) Discoverable" where
  "TypeB = \<lparr>is_discovered = (\<lambda>m s. False), dis_get_info = (\<lambda>m s. []),
            dis_get_entries = (\<lambda>m s. [])\<rparr>"

definition stub_env :: "bool \<Rightarrow> (string list, string list, string, string) env" where
  "stub_env fails =
     \<lparr>mdns_new = [], ssdp_new = [],
      mdns_start = (\<lambda>m. m @ [''seeded'']),
      mdns_stop = (\<lambda>m. m),
      ssdp_scan = (\<lambda>s. if fails then (Some ''timeout'', s) else (None, s @ [''reply''])),
      walk_packages = [''netdisco.discoverables.TypeA'', ''netdisco.discoverables.TypeB'',
                       ''netdisco.ssdp''],
      import_module = (\<lambda>pkg. if pkg = ''netdisco.discoverables.TypeA'' then Inr TypeA
                              else if pkg = ''netdisco.discoverables.TypeB'' then Inr TypeB
                              else Inl ''ImportError'')\<rparr>"

definition stub_idle :: "(string list, string list, string) NetworkDiscovery" where
  "stub_idle =
     \<lparr>limit_discovery = None, mdns = [], ssdp = [],
      discoverables = [(''TypeA'', TypeA), (''TypeB'', TypeB)],
      is_discovering = False, calls = []\<rparr>"

text \<open>
  A walk that yields two packages with the same last component, both passing the test
  of the loop on the part before the last dot.
\<close>

definition clash_env :: "(string list, string list, string, string) env" where
  "clash_env =
     (stub_env False)
       \<lparr>walk_packages := [''netdisco.discoverables.TypeA'', ''evilnetdisco.discoverables.TypeA''],
        import_module := (\<lambda>pkg. if pkg = ''netdisco.discoverables.TypeA'' then Inr TypeA
                                else Inr TypeB)\<rparr>"

section \<open>Properties\<close>

subsection \<open>Facts about single calls\<close>

lemma new_stub_idle: "new (stub_env False) None = Inr stub_idle"
  by (simp add: new_def load_device_support_def stub_env_def load_body_def rsplit1_def
      endswith_def stub_idle_def)

lemma scan_is_discovering: "is_discovering (snd (scan E self))"
  by (simp add: scan_def Let_def split: option.split)

lemma scan_calls:
  "calls (snd (scan E self)) =
     calls self @ (if is_discovering self then [] else [MDNS_start]) @ [SSDP_scan]"
  by (simp add: scan_def Let_def split: option.split)

lemma scan_mdns:
  "mdns (snd (scan E self)) = (if is_discovering self then mdns self else mdns_start E (mdns self))"
  by (simp add: scan_def Let_def split: option.split)

lemma scan_ssdp: "ssdp (snd (scan E self)) = snd (ssdp_scan E (ssdp self))"
  by (simp add: scan_def Let_def split: option.split)

lemma scan_discoverables: "discoverables (snd (scan E self)) = discoverables self"
  by (simp add: scan_def Let_def split: option.split)

lemma stop_discoverables: "discoverables (stop E self) = discoverables self"
  by (simp add: stop_def)

lemma stop_not_discovering: "\<not> is_discovering (stop E self)"
  by (simp add: stop_def)

lemma discover_idle:
  "\<not> is_discovering self \<Longrightarrow> discover self = Inl (RuntimeError ''NetworkDiscovery is disabled'')"
  by (simp add: discover_def check_enabled_def)

lemma new_idle: "new E limit = Inr self \<Longrightarrow> \<not> is_discovering self"
  by (auto simp: new_def split: sum.splits)

subsection \<open>The guard of \<^verbatim>\<open>discover\<close>\<close>

text \<open>
  Claim C1. \<^verbatim>\<open>discover()\<close> on an idle coordinator raises the \<^verbatim>\<open>RuntimeError\<close> of
  \<^verbatim>\<open>_check_enabled\<close>, and it returns a list exactly when the coordinator is scanning.
  A coordinator is idle when the constructor has just built it, and again after
  \<^verbatim>\<open>stop()\<close> following \<^verbatim>\<open>scan()\<close>.
\<close>

theorem discover_requires_scanning:
  "(\<not> is_discovering self \<longrightarrow>
      (discover self :: 'e error + string list) = Inl (RuntimeError ''NetworkDiscovery is disabled''))
   \<and> ((\<exists>names. (discover self :: 'e error + string list) = Inr names) \<longleftrightarrow> is_discovering self)
   \<and> (new E limit = Inr fresh \<longrightarrow>
      (discover fresh :: 'e error + string list) = Inl (RuntimeError ''NetworkDiscovery is disabled''))
   \<and> (discover (stop E (snd (scan E self))) :: 'e error + string list)
        = Inl (RuntimeError ''NetworkDiscovery is disabled'')"
proof -
  have a: "\<not> is_discovering self \<longrightarrow>
      (discover self :: 'e error + string list) = Inl (RuntimeError ''NetworkDiscovery is disabled'')"
    by (simp add: discover_idle)
  have b: "(\<exists>names. (discover self :: 'e error + string list) = Inr names) \<longleftrightarrow> is_discovering self"
    by (simp add: discover_def check_enabled_def)
  have c: "new E limit = Inr fresh \<longrightarrow>
      (discover fresh :: 'e error + string list) = Inl (RuntimeError ''NetworkDiscovery is disabled'')"
    using new_idle discover_idle by blast
  have d: "(discover (stop E (snd (scan E self))) :: 'e error + string list)
        = Inl (RuntimeError ''NetworkDiscovery is disabled'')"
    by (rule discover_idle) (rule stop_not_discovering)
  from a b c d show ?thesis by blast
qed

theorem discover_requires_scanning_witness:
  "\<not> is_discovering stub_idle
   \<and> (discover stub_idle :: string error + string list)
        = Inl (RuntimeError ''NetworkDiscovery is disabled'')
   \<and> is_discovering (snd (scan (stub_env False) stub_idle))
   \<and> (discover (snd (scan (stub_env False) stub_idle)) :: string error + string list)
        = Inr [''TypeA'']
   \<and> new (stub_env False) None = Inr stub_idle
   \<and> (discover (stop (stub_env False) (snd (scan (stub_env False) stub_idle)))
        :: string error + string list) = Inl (RuntimeError ''NetworkDiscovery is disabled'')"
proof -
  have idle: "\<not> is_discovering stub_idle"
    by (simp add: stub_idle_def)
  have scanned: "(discover (snd (scan (stub_env False) stub_idle)) :: string error + string list)
        = Inr [''TypeA'']"
    by (simp add: discover_def check_enabled_def scan_def stub_env_def stub_idle_def Let_def
        TypeA_def TypeB_def)
  from idle scanned new_stub_idle scan_is_discovering
    discover_requires_scanning [of stub_idle "stub_env False" None stub_idle,
      where 'e = string]
  show ?thesis by blast
qed

subsection \<open>\<^verbatim>\<open>get_info\<close> and \<^verbatim>\<open>get_entries\<close> on an idle coordinator\<close>

text \<open>
  On the idle stub coordinator \<^verbatim>\<open>get_info\<close> and \<^verbatim>\<open>get_entries\<close> of a registered
  name return the checker's answer, and of an unregistered name raise \<^verbatim>\<open>KeyError\<close>:
  neither raises the \<^verbatim>\<open>RuntimeError\<close> of \<^verbatim>\<open>_check_enabled\<close>.
\<close>

theorem get_info_idle_counterexample:
  "\<not> is_discovering stub_idle
   \<and> (get_info stub_idle ''TypeA'' :: string error + string list) = Inr []
   \<and> (get_entries stub_idle ''TypeA'' :: string error + string list) = Inr []
   \<and> (get_info stub_idle ''nonexistent'' :: string error + string list) = Inl (KeyError ''nonexistent'')
   \<and> (get_entries stub_idle ''nonexistent'' :: string error + string list) = Inl (KeyError ''nonexistent'')"
  by (simp add: get_info_def get_entries_def stub_idle_def TypeA_def)

text \<open>
  Claim C2, as amended. \<^verbatim>\<open>get_info\<close> and \<^verbatim>\<open>get_entries\<close> do not call
  \<^verbatim>\<open>_check_enabled\<close>: their outcome does not depend on \<^verbatim>\<open>is_discovering\<close>, and
  they never raise \<^verbatim>\<open>RuntimeError\<close>, whatever the state and the name.
\<close>

theorem get_info_ignores_state:
  "(get_info (self\<lparr>is_discovering := b\<rparr>) dis :: 'e error + 'r list) = get_info self dis
   \<and> (get_entries (self\<lparr>is_discovering := b\<rparr>) dis :: 'e error + 'r list) = get_entries self dis
   \<and> (get_info self dis :: 'e error + 'r list) \<noteq> Inl (RuntimeError msg)
   \<and> (get_entries self dis :: 'e error + 'r list) \<noteq> Inl (RuntimeError msg)"
  by (simp add: get_info_def get_entries_def split: option.split)

subsection \<open>Consecutive scans\<close>

lemma scan_times_scanning:
  "is_discovering self \<Longrightarrow>
     calls (scan_times E n self) = calls self @ replicate n SSDP_scan
     \<and> is_discovering (scan_times E n self)
     \<and> mdns (scan_times E n self) = mdns self"
proof (induction n arbitrary: self)
  case 0
  then show ?case by simp
next
  case (Suc n)
  have "is_discovering (snd (scan E self))" by (rule scan_is_discovering)
  from Suc.IH [OF this] Suc.prems show ?case
    by (simp add: scan_calls scan_mdns replicate_append_same)
qed

lemma scan_times_ssdp:
  "ssdp (scan_times E n self) = ((\<lambda>s. snd (ssdp_scan E s)) ^^ n) (ssdp self)"
proof (induction n arbitrary: self)
  case 0
  then show ?case by simp
next
  case (Suc n)
  have "ssdp (scan_times E (Suc n) self)
      = ((\<lambda>s. snd (ssdp_scan E s)) ^^ n) (snd (ssdp_scan E (ssdp self)))"
    by (simp add: Suc.IH scan_ssdp)
  also have "\<dots> = ((\<lambda>s. snd (ssdp_scan E s)) ^^ Suc n) (ssdp self)"
    by (simp only: funpow_Suc_right comp_apply)
  finally show ?case .
qed

text \<open>
  Claim C3. On an idle coordinator, \<open>n + 1\<close> consecutive calls of \<^verbatim>\<open>scan()\<close> call
  the background scanner's \<^verbatim>\<open>start()\<close> exactly once, before anything else, and the
  foreground scanner's \<^verbatim>\<open>scan()\<close> once per call: the background scanner's state is
  its old state after one \<^verbatim>\<open>start()\<close>, the foreground scanner's state is its old state
  after \<open>n + 1\<close> scans, each run on the state the previous one left. The coordinator is
  scanning afterwards. This holds for every number of calls, so after each of them.
\<close>

theorem scan_starts_background_once:
  assumes "\<not> is_discovering self"
  shows "calls (scan_times E (Suc n) self) = calls self @ MDNS_start # replicate (Suc n) SSDP_scan
     \<and> count_list (calls (scan_times E (Suc n) self)) MDNS_start
         = count_list (calls self) MDNS_start + 1
     \<and> count_list (calls (scan_times E (Suc n) self)) SSDP_scan
         = count_list (calls self) SSDP_scan + Suc n
     \<and> mdns (scan_times E (Suc n) self) = mdns_start E (mdns self)
     \<and> ssdp (scan_times E (Suc n) self) = ((\<lambda>s. snd (ssdp_scan E s)) ^^ Suc n) (ssdp self)
     \<and> is_discovering (scan_times E (Suc n) self)"
proof -
  have s: "is_discovering (snd (scan E self))" by (rule scan_is_discovering)
  have f: "ssdp (scan_times E (Suc n) self) = ((\<lambda>s. snd (ssdp_scan E s)) ^^ Suc n) (ssdp self)"
    by (rule scan_times_ssdp)
  have c: "calls (scan_times E (Suc n) self) = calls self @ MDNS_start # replicate (Suc n) SSDP_scan"
    using scan_times_scanning [OF s, of E n] assms
    by (simp add: scan_calls replicate_append_same)
  have k: "count_list (replicate m SSDP_scan) MDNS_start = 0
           \<and> count_list (replicate m SSDP_scan) SSDP_scan = m" for m
    by (induction m) simp_all
  from c k [of "Suc n"] have n1: "count_list (calls (scan_times E (Suc n) self)) MDNS_start
         = count_list (calls self) MDNS_start + 1"
    by (simp del: replicate_Suc)
  from c k [of "Suc n"] have n2: "count_list (calls (scan_times E (Suc n) self)) SSDP_scan
         = count_list (calls self) SSDP_scan + Suc n"
    by (simp del: replicate_Suc)
  from scan_times_scanning [OF s, of E n] assms
  have m: "mdns (scan_times E (Suc n) self) = mdns_start E (mdns self)"
    and d: "is_discovering (scan_times E (Suc n) self)"
    by (simp_all add: scan_mdns)
  from c n1 n2 m f d show ?thesis by blast
qed

theorem scan_starts_background_once_witness:
  "\<not> is_discovering stub_idle
   \<and> calls (scan_times (stub_env False) 3 stub_idle) = [MDNS_start, SSDP_scan, SSDP_scan, SSDP_scan]
   \<and> count_list (calls (scan_times (stub_env False) 3 stub_idle)) MDNS_start = 1
   \<and> count_list (calls (scan_times (stub_env False) 3 stub_idle)) SSDP_scan = 3
   \<and> mdns (scan_times (stub_env False) 3 stub_idle) = [''seeded'']
   \<and> ssdp (scan_times (stub_env False) 3 stub_idle) = [''reply'', ''reply'', ''reply'']
   \<and> is_discovering (scan_times (stub_env False) 3 stub_idle)"
proof -
  have idle: "\<not> is_discovering stub_idle" by (simp add: stub_idle_def)
  have three: "(3::nat) = Suc 2" by simp
  from scan_starts_background_once [OF idle, of "stub_env False" 2] idle
  show ?thesis
    unfolding three by (simp add: stub_idle_def stub_env_def numeral_2_eq_2)
qed

subsection \<open>\<^verbatim>\<open>stop\<close>\<close>

text \<open>
  Claim C4. \<^verbatim>\<open>stop()\<close> on an idle coordinator changes nothing and calls nothing; on
  a scanning coordinator it calls the background scanner's \<^verbatim>\<open>stop()\<close> once and
  leaves the coordinator idle; a second \<^verbatim>\<open>stop()\<close> right after changes nothing.
\<close>

theorem stop_idle_noop_scanning_stops:
  "(\<not> is_discovering self \<longrightarrow> stop E self = self)
   \<and> (is_discovering self \<longrightarrow>
        calls (stop E self) = calls self @ [MDNS_stop]
        \<and> mdns (stop E self) = mdns_stop E (mdns self)
        \<and> \<not> is_discovering (stop E self))
   \<and> stop E (stop E self) = stop E self"
  by (simp add: stop_def)

theorem stop_idle_noop_scanning_stops_witness:
  "\<not> is_discovering stub_idle
   \<and> calls (stop (stub_env False) stub_idle) = []
   \<and> is_discovering (snd (scan (stub_env False) stub_idle))
   \<and> calls (stop (stub_env False) (snd (scan (stub_env False) stub_idle)))
        = [MDNS_start, SSDP_scan, MDNS_stop]
   \<and> \<not> is_discovering (stop (stub_env False) (snd (scan (stub_env False) stub_idle)))
   \<and> calls (stop (stub_env False) (stop (stub_env False) (snd (scan (stub_env False) stub_idle))))
        = [MDNS_start, SSDP_scan, MDNS_stop]"
proof -
  have idle: "\<not> is_discovering stub_idle" by (simp add: stub_idle_def)
  have c0: "calls stub_idle = []" by (simp add: stub_idle_def)
  from stop_idle_noop_scanning_stops [of stub_idle "stub_env False"]
    stop_idle_noop_scanning_stops [of "snd (scan (stub_env False) stub_idle)" "stub_env False"]
    idle c0 scan_is_discovering [of "stub_env False" stub_idle]
    scan_calls [of "stub_env False" stub_idle]
  show ?thesis by simp
qed

subsection \<open>A scan after a stop\<close>

text \<open>
  Claim C10. In \<^verbatim>\<open>scan(); stop(); scan()\<close> the second \<^verbatim>\<open>scan()\<close> calls the
  background scanner's \<^verbatim>\<open>start()\<close> again, on the state \<^verbatim>\<open>stop()\<close> left, then the
  foreground scan, and leaves the coordinator scanning.
\<close>

theorem scan_after_stop_restarts_background:
  "calls (snd (scan E (stop E (snd (scan E self)))))
      = calls (stop E (snd (scan E self))) @ [MDNS_start, SSDP_scan]
   \<and> calls (stop E (snd (scan E self))) = calls (snd (scan E self)) @ [MDNS_stop]
   \<and> mdns (snd (scan E (stop E (snd (scan E self)))))
      = mdns_start E (mdns_stop E (mdns (snd (scan E self))))
   \<and> is_discovering (snd (scan E (stop E (snd (scan E self)))))"
proof -
  define first where "first = snd (scan E self)"
  have on: "is_discovering first"
    unfolding first_def by (rule scan_is_discovering)
  have off: "\<not> is_discovering (stop E first)"
    by (rule stop_not_discovering)
  have c1: "calls (stop E first) = calls first @ [MDNS_stop]"
    using on by (simp add: stop_def)
  have m1: "mdns (stop E first) = mdns_stop E (mdns first)"
    using on by (simp add: stop_def)
  have c2: "calls (snd (scan E (stop E first))) = calls (stop E first) @ [MDNS_start, SSDP_scan]"
    using off by (simp add: scan_calls)
  have m2: "mdns (snd (scan E (stop E first))) = mdns_start E (mdns_stop E (mdns first))"
    using off m1 by (simp add: scan_mdns)
  have d2: "is_discovering (snd (scan E (stop E first)))"
    by (rule scan_is_discovering)
  from c1 c2 m2 d2 show ?thesis
    unfolding first_def by blast
qed


subsection \<open>The loader and the limit\<close>

text \<open>
  A package name in the namespace contains a dot, so \<^verbatim>\<open>rsplit\<close> gives two parts and
  the subscript \<^verbatim>\<open>parts[1]\<close> never raises.
\<close>

lemma endswith_set: "endswith s suf \<Longrightarrow> set suf \<subseteq> set s"
proof -
  assume "endswith s suf"
  then have "suf = drop (length s - length suf) s"
    by (simp add: endswith_def)
  then have "set suf = set (drop (length s - length suf) s)" by simp
  then show ?thesis using set_drop_subset by fast
qed

lemma in_namespace_dot:
  assumes "in_namespace pkg"
  shows "CHR ''.'' \<in> set pkg"
proof (rule ccontr)
  assume no: "CHR ''.'' \<notin> set pkg"
  then have "rsplit1 pkg CHR ''.'' = [pkg]" by (simp add: rsplit1_def)
  with assms have "endswith pkg ''netdisco.discoverables''"
    by (simp add: in_namespace_def)
  then have "set ''netdisco.discoverables'' \<subseteq> set pkg" by (rule endswith_set)
  with no show False by auto
qed

lemma in_namespace_parts: "in_namespace pkg \<Longrightarrow> length (rsplit1 pkg CHR ''.'') = 2"
  using in_namespace_dot [of pkg] by (simp add: rsplit1_def)

lemma load_body_skipped: "\<not> kept limit pkg \<Longrightarrow> load_body E limit pkg reg = Inr reg"
  by (auto simp: load_body_def kept_def in_namespace_def Let_def split: option.splits)

lemma load_body_kept:
  assumes "kept limit pkg" and "import_module E pkg = Inr checker"
  shows "load_body E limit pkg reg = Inr (AList.update (type_name pkg) checker reg)"
proof -
  from assms(1) have ns: "in_namespace pkg" by (simp add: kept_def)
  from assms(1) have lim: "\<not> (case limit of None \<Rightarrow> False | Some l \<Rightarrow> pkg \<notin> set l)"
    by (simp add: kept_def split: option.splits)
  from ns lim assms(2) in_namespace_parts [OF ns] show ?thesis
    by (simp add: load_body_def Let_def in_namespace_def type_name_def)
qed

lemma load_body_failed:
  assumes "kept limit pkg" and "import_module E pkg = Inl e"
  shows "load_body E limit pkg reg = Inl (Propagated e)"
proof -
  from assms(1) have ns: "in_namespace pkg" by (simp add: kept_def)
  from assms(1) have lim: "\<not> (case limit of None \<Rightarrow> False | Some l \<Rightarrow> pkg \<notin> set l)"
    by (simp add: kept_def split: option.splits)
  from ns lim assms(2) show ?thesis
    by (simp add: load_body_def Let_def in_namespace_def)
qed

lemma load_body_distinct:
  assumes "load_body E limit pkg reg = Inr reg'" and "distinct (map fst reg)"
  shows "distinct (map fst reg')"
proof (cases "kept limit pkg")
  case False
  with assms show ?thesis by (simp add: load_body_skipped)
next
  case True
  show ?thesis
  proof (cases "import_module E pkg")
    case (Inl e)
    with True assms show ?thesis by (simp add: load_body_failed)
  next
    case (Inr checker)
    with True assms show ?thesis by (auto simp: load_body_kept distinct_update)
  qed
qed

lemma load_loop_distinct:
  "load_loop E limit pkgs reg = Inr reg' \<Longrightarrow> distinct (map fst reg) \<Longrightarrow> distinct (map fst reg')"
proof (induction pkgs arbitrary: reg)
  case Nil
  then show ?case by simp
next
  case (Cons pkg pkgs)
  then show ?case
    by (auto split: sum.splits dest: load_body_distinct)
qed

lemma new_distinct_keys: "new E limit = Inr self \<Longrightarrow> distinct (map fst (discoverables self))"
  by (auto simp: new_def load_device_support_def split: sum.splits dest: load_loop_distinct)

lemma load_loop_registry:
  assumes "\<forall>pkg \<in> set pkgs. kept limit pkg \<longrightarrow> import_module E pkg = Inr (plugin pkg)"
  shows "\<exists>reg'. load_loop E limit pkgs reg = Inr reg'
           \<and> fst ` set reg' = fst ` set reg \<union> set (map type_name (filter (kept limit) pkgs))
           \<and> map_of reg'
               = map_of reg
                   ++ map_of (rev (map (\<lambda>pkg. (type_name pkg, plugin pkg))
                                      (filter (kept limit) pkgs)))"
  using assms
proof (induction pkgs arbitrary: reg)
  case Nil
  then show ?case by simp
next
  case (Cons pkg pkgs)
  from Cons.prems have rest:
    "\<forall>p \<in> set pkgs. kept limit p \<longrightarrow> import_module E p = Inr (plugin p)"
    by simp
  show ?case
  proof (cases "kept limit pkg")
    case False
    with Cons.IH [OF rest, of reg] show ?thesis
      by (simp add: load_body_skipped)
  next
    case True
    with Cons.prems have imp: "import_module E pkg = Inr (plugin pkg)"
      by simp
    let ?reg1 = "AList.update (type_name pkg) (plugin pkg) reg"
    let ?later = "map_of (rev (map (\<lambda>pkg. (type_name pkg, plugin pkg)) (filter (kept limit) pkgs)))"
    from Cons.IH [OF rest, of ?reg1]
    obtain reg' where r: "load_loop E limit pkgs ?reg1 = Inr reg'"
      and k: "fst ` set reg' = fst ` set ?reg1 \<union> set (map type_name (filter (kept limit) pkgs))"
      and m: "map_of reg' = map_of ?reg1 ++ ?later"
      by blast
    from r True imp have "load_loop E limit (pkg # pkgs) reg = Inr reg'"
      by (simp add: load_body_kept)
    moreover from k True have "fst ` set reg' = fst ` set reg
        \<union> set (map type_name (filter (kept limit) (pkg # pkgs)))"
      by (simp add: dom_update)
    moreover have "map_of reg'
        = map_of reg ++ map_of (rev (map (\<lambda>pkg. (type_name pkg, plugin pkg))
                                       (filter (kept limit) (pkg # pkgs))))"
    proof (rule ext)
      fix key
      from True have e: "filter (kept limit) (pkg # pkgs) = pkg # filter (kept limit) pkgs"
        by simp
      show "map_of reg' key
          = (map_of reg ++ map_of (rev (map (\<lambda>pkg. (type_name pkg, plugin pkg))
                                         (filter (kept limit) (pkg # pkgs))))) key"
        unfolding m e
        by (simp add: update_conv' map_add_def split: option.split)
    qed
    ultimately show ?thesis by blast
  qed
qed

lemma stub_in_namespace:
  "in_namespace ''netdisco.discoverables.TypeA''" "in_namespace ''netdisco.discoverables.TypeB''"
  "\<not> in_namespace ''netdisco.ssdp''"
  "type_name ''netdisco.discoverables.TypeA'' = ''TypeA''"
  "type_name ''netdisco.discoverables.TypeB'' = ''TypeB''"
  "in_namespace ''evilnetdisco.discoverables.TypeA''"
  "type_name ''evilnetdisco.discoverables.TypeA'' = ''TypeA''"
  by (simp_all add: in_namespace_def type_name_def rsplit1_def endswith_def)

text \<open>
  With the stub plugins \<^verbatim>\<open>netdisco.discoverables.TypeA\<close> and
  \<^verbatim>\<open>netdisco.discoverables.TypeB\<close>: a limit that names the type, \<^verbatim>\<open>TypeA\<close>, loads
  nothing, and a limit that names the package loads it under the key \<^verbatim>\<open>TypeA\<close>,
  which is not the element of the limit.
\<close>

theorem limit_set_counterexample:
  "load_device_support (stub_env False) (Some [''TypeA'']) = Inr []
   \<and> map_sum id (map fst)
        (load_device_support (stub_env False) (Some [''netdisco.discoverables.TypeA'']))
      = Inr [''TypeA'']"
  by (simp add: load_device_support_def stub_env_def load_body_def rsplit1_def endswith_def)

text \<open>
  Claim C5, as amended. With a limit, the loader skips every package whose full name is
  not in the limit, and also every package whose part before the last dot does not end
  with \<^verbatim>\<open>netdisco.discoverables\<close>. It imports every other package and stores its
  checker under the part of the name after the last dot, so that of two such packages
  with the same last part the later one replaces the earlier. When every import
  succeeds the loader returns a dictionary with distinct keys: its keys are the last
  parts of the packages imported, and each key holds the checker of the last package
  imported under it.
\<close>

theorem limit_set_keeps_listed_packages:
  assumes "\<forall>pkg \<in> set (walk_packages E).
             kept (Some l) pkg \<longrightarrow> import_module E pkg = Inr (plugin pkg)"
  shows "\<exists>reg. load_device_support E (Some l) = Inr reg
           \<and> fst ` set reg
               = set (map type_name
                   (filter (\<lambda>pkg. in_namespace pkg \<and> pkg \<in> set l) (walk_packages E)))
           \<and> distinct (map fst reg)
           \<and> map_of reg
               = map_of (rev (map (\<lambda>pkg. (type_name pkg, plugin pkg))
                   (filter (\<lambda>pkg. in_namespace pkg \<and> pkg \<in> set l) (walk_packages E))))"
proof -
  have k: "kept (Some l) = (\<lambda>pkg. in_namespace pkg \<and> pkg \<in> set l)"
    by (rule ext) (simp add: kept_def)
  from load_loop_registry [OF assms, of "[]"]
  obtain reg where r: "load_loop E (Some l) (walk_packages E) [] = Inr reg"
    and ks: "fst ` set reg = set (map type_name (filter (kept (Some l)) (walk_packages E)))"
    and m: "map_of reg = map_of (rev (map (\<lambda>pkg. (type_name pkg, plugin pkg))
                                     (filter (kept (Some l)) (walk_packages E))))"
    by auto
  from r have d: "distinct (map fst reg)"
    by (rule load_loop_distinct) simp
  from r ks m d show ?thesis
    by (simp add: load_device_support_def k)
qed

theorem limit_set_keeps_listed_packages_witness:
  "(\<exists>reg. load_device_support (stub_env False) (Some [''netdisco.discoverables.TypeA'']) = Inr reg
         \<and> fst ` set reg = {''TypeA''}
         \<and> distinct (map fst reg)
         \<and> map_of reg ''TypeA'' = Some TypeA
         \<and> map_of reg ''TypeB'' = None)
   \<and> (\<exists>reg. load_device_support clash_env
               (Some [''evilnetdisco.discoverables.TypeA'', ''netdisco.discoverables.TypeA'']) = Inr reg
         \<and> fst ` set reg = {''TypeA''}
         \<and> distinct (map fst reg)
         \<and> map_of reg ''TypeA'' = Some TypeB)"
proof -
  let ?plugin = "\<lambda>pkg. if pkg = ''netdisco.discoverables.TypeA'' then TypeA else TypeB"
  have h: "\<forall>pkg \<in> set (walk_packages (stub_env False)).
             kept (Some [''netdisco.discoverables.TypeA'']) pkg
               \<longrightarrow> import_module (stub_env False) pkg = Inr (?plugin pkg)"
    by (simp add: stub_env_def kept_def stub_in_namespace)
  have w: "walk_packages (stub_env False)
      = [''netdisco.discoverables.TypeA'', ''netdisco.discoverables.TypeB'', ''netdisco.ssdp'']"
    by (simp add: stub_env_def)
  from limit_set_keeps_listed_packages [OF h]
  obtain reg where r: "load_device_support (stub_env False)
        (Some [''netdisco.discoverables.TypeA'']) = Inr reg"
    and k: "fst ` set reg = {''TypeA''}"
    and d: "distinct (map fst reg)"
    and m: "map_of reg = map_of [(''TypeA'', TypeA)]"
    unfolding w by (auto simp: stub_in_namespace)
  have "map_of reg ''TypeA'' = Some TypeA" and "map_of reg ''TypeB'' = None"
    unfolding m by simp_all
  with r k d have one: "\<exists>reg. load_device_support (stub_env False)
        (Some [''netdisco.discoverables.TypeA'']) = Inr reg
         \<and> fst ` set reg = {''TypeA''}
         \<and> distinct (map fst reg)
         \<and> map_of reg ''TypeA'' = Some TypeA
         \<and> map_of reg ''TypeB'' = None"
    by blast
  have h': "\<forall>pkg \<in> set (walk_packages clash_env).
             kept (Some [''evilnetdisco.discoverables.TypeA'', ''netdisco.discoverables.TypeA'']) pkg
               \<longrightarrow> import_module clash_env pkg = Inr (?plugin pkg)"
    by (simp add: clash_env_def)
  have w': "walk_packages clash_env
      = [''netdisco.discoverables.TypeA'', ''evilnetdisco.discoverables.TypeA'']"
    by (simp add: clash_env_def)
  from limit_set_keeps_listed_packages [OF h']
  obtain reg' where r': "load_device_support clash_env
        (Some [''evilnetdisco.discoverables.TypeA'', ''netdisco.discoverables.TypeA'']) = Inr reg'"
    and k': "fst ` set reg' = {''TypeA''}"
    and d': "distinct (map fst reg')"
    and m': "map_of reg' = map_of [(''TypeA'', TypeB), (''TypeA'', TypeA)]"
    unfolding w' by (auto simp: stub_in_namespace)
  have "map_of reg' ''TypeA'' = Some TypeB"
    unfolding m' by simp
  with r' k' d' have two: "\<exists>reg. load_device_support clash_env
        (Some [''evilnetdisco.discoverables.TypeA'', ''netdisco.discoverables.TypeA'']) = Inr reg
         \<and> fst ` set reg = {''TypeA''}
         \<and> distinct (map fst reg)
         \<and> map_of reg ''TypeA'' = Some TypeB"
    by blast
  from one two show ?thesis by blast
qed

subsection \<open>A failing foreground scan\<close>

text \<open>
  On the idle stub coordinator a foreground scan that times out makes \<^verbatim>\<open>scan()\<close>
  raise, and leaves the coordinator scanning: the background scanner was started and
  the flag set before the foreground scan ran.
\<close>

theorem scan_failure_counterexample:
  "\<not> is_discovering stub_idle
   \<and> fst (scan (stub_env True) stub_idle) = Inl (Propagated ''timeout'')
   \<and> is_discovering (snd (scan (stub_env True) stub_idle))
   \<and> calls (snd (scan (stub_env True) stub_idle)) = [MDNS_start, SSDP_scan]"
  by (simp add: scan_def stub_env_def stub_idle_def Let_def)

text \<open>
  Claim C6, as amended. When the foreground scan raises, \<^verbatim>\<open>scan()\<close> raises the same
  exception, and the coordinator is scanning afterwards, whatever it was before: its
  state is the state before the call exactly when it was already scanning. The
  background scanner has been started if the coordinator was idle; the dictionary of
  checkers and the limit are untouched.
\<close>

theorem scan_failure_propagates:
  assumes "fst (ssdp_scan E (ssdp self)) = Some e"
  shows "fst (scan E self) = Inl (Propagated e)
     \<and> is_discovering (snd (scan E self))
     \<and> (is_discovering (snd (scan E self)) = is_discovering self) = is_discovering self
     \<and> mdns (snd (scan E self))
         = (if is_discovering self then mdns self else mdns_start E (mdns self))
     \<and> discoverables (snd (scan E self)) = discoverables self
     \<and> limit_discovery (snd (scan E self)) = limit_discovery self"
  using assms by (simp add: scan_def Let_def)

theorem scan_failure_propagates_witness:
  "fst (ssdp_scan (stub_env True) (ssdp stub_idle)) = Some ''timeout''
   \<and> fst (scan (stub_env True) stub_idle) = Inl (Propagated ''timeout'')
   \<and> is_discovering (snd (scan (stub_env True) stub_idle))
   \<and> mdns (snd (scan (stub_env True) stub_idle)) = [''seeded'']"
proof -
  have h: "fst (ssdp_scan (stub_env True) (ssdp stub_idle)) = Some ''timeout''"
    by (simp add: stub_env_def)
  from scan_failure_propagates [OF h] h show ?thesis
    by (simp add: stub_env_def stub_idle_def)
qed

subsection \<open>What \<^verbatim>\<open>discover\<close> returns\<close>

lemma filter_by_key:
  "distinct (map fst xs) \<Longrightarrow>
     map fst (filter (\<lambda>(k, v). P v) xs)
       = filter (\<lambda>k. case map_of xs k of None \<Rightarrow> False | Some v \<Rightarrow> P v) (map fst xs)"
proof (induction xs)
  case Nil
  then show ?case by simp
next
  case (Cons x xs)
  obtain k v where x: "x = (k, v)" by (cases x)
  from Cons.prems x have fresh: "k \<notin> fst ` set xs" and d: "distinct (map fst xs)"
    by simp_all
  have tail: "filter (\<lambda>k'. case map_of (x # xs) k' of None \<Rightarrow> False | Some v \<Rightarrow> P v) (map fst xs)
      = filter (\<lambda>k'. case map_of xs k' of None \<Rightarrow> False | Some v \<Rightarrow> P v) (map fst xs)"
  proof (rule filter_cong [OF refl])
    fix k' assume "k' \<in> set (map fst xs)"
    with fresh have "k' \<noteq> k" by auto
    then show "(case map_of (x # xs) k' of None \<Rightarrow> False | Some v \<Rightarrow> P v)
        = (case map_of xs k' of None \<Rightarrow> False | Some v \<Rightarrow> P v)"
      by (simp add: x)
  qed
  from Cons.IH [OF d] tail show ?case
    by (simp add: x)
qed

text \<open>
  Claim C7. On a scanning coordinator \<^verbatim>\<open>discover()\<close> returns the keys of the
  dictionary, in its iteration order, restricted to those whose checker reports
  \<^verbatim>\<open>is_discovered()\<close> on the scanners' current states: each such name once, and no
  other name. The keys of a dictionary are distinct; \<open>new_distinct_keys\<close> shows it of
  the dictionary the constructor builds.
\<close>

theorem discover_lists_discovered_in_order:
  assumes "is_discovering self" and "distinct (map fst (discoverables self))"
  shows "\<exists>names. (discover self :: 'e error + string list) = Inr names
     \<and> names = filter (\<lambda>dis. case map_of (discoverables self) dis of
                                None \<Rightarrow> False
                              | Some checker \<Rightarrow> is_discovered checker (mdns self) (ssdp self))
                       (map fst (discoverables self))
     \<and> distinct names
     \<and> set names = {dis. \<exists>checker. map_of (discoverables self) dis = Some checker
                           \<and> is_discovered checker (mdns self) (ssdp self)}"
proof -
  let ?P = "\<lambda>dis. case map_of (discoverables self) dis of
                     None \<Rightarrow> False
                   | Some checker \<Rightarrow> is_discovered checker (mdns self) (ssdp self)"
  let ?names = "filter ?P (map fst (discoverables self))"
  have "map fst (filter (\<lambda>(dis, checker). is_discovered checker (mdns self) (ssdp self))
                   (discoverables self)) = ?names"
    using assms(2) by (rule filter_by_key)
  with assms(1) have r: "(discover self :: 'e error + string list) = Inr ?names"
    by (simp add: discover_def check_enabled_def)
  from assms(2) have d: "distinct ?names" by simp
  have s: "set ?names = {dis. \<exists>checker. map_of (discoverables self) dis = Some checker
                           \<and> is_discovered checker (mdns self) (ssdp self)}"
  proof (rule set_eqI)
    fix dis
    have "map_of (discoverables self) dis \<noteq> None \<Longrightarrow> dis \<in> fst ` set (discoverables self)"
      by (simp add: map_of_eq_None_iff)
    then show "dis \<in> set ?names
        \<longleftrightarrow> dis \<in> {dis. \<exists>checker. map_of (discoverables self) dis = Some checker
                           \<and> is_discovered checker (mdns self) (ssdp self)}"
      by (auto split: option.splits)
  qed
  from r d s show ?thesis by blast
qed

theorem discover_lists_discovered_in_order_witness:
  "is_discovering (snd (scan (stub_env False) stub_idle))
   \<and> distinct (map fst (discoverables (snd (scan (stub_env False) stub_idle))))
   \<and> (discover (snd (scan (stub_env False) stub_idle)) :: string error + string list)
       = Inr [''TypeA'']"
proof -
  let ?s = "snd (scan (stub_env False) stub_idle)"
  have on: "is_discovering ?s" by (rule scan_is_discovering)
  have reg: "discoverables ?s = [(''TypeA'', TypeA), (''TypeB'', TypeB)]"
    by (simp add: scan_discoverables) (simp add: stub_idle_def)
  have d: "distinct (map fst (discoverables ?s))"
    by (simp add: reg)
  have m: "mdns ?s = [''seeded'']"
    by (simp add: scan_mdns) (simp add: stub_idle_def stub_env_def)
  from discover_lists_discovered_in_order [OF on d, where 'e = string]
  have "(discover ?s :: string error + string list) = Inr [''TypeA'']"
    by (simp add: reg m TypeA_def TypeB_def)
  with on d show ?thesis by blast
qed

subsection \<open>Unknown names\<close>

text \<open>
  Claim C8. Whatever the state, \<^verbatim>\<open>get_info\<close> and \<^verbatim>\<open>get_entries\<close> of a name that is
  not a key of the dictionary raise \<^verbatim>\<open>KeyError\<close>, and of a key return what its
  checker's method returns; every key has a checker.
\<close>

theorem lookup_unknown_type:
  "(dis \<notin> fst ` set (discoverables self) \<longrightarrow>
      (get_info (self\<lparr>is_discovering := b\<rparr>) dis :: 'e error + 'r list) = Inl (KeyError dis)
      \<and> (get_entries (self\<lparr>is_discovering := b\<rparr>) dis :: 'e error + 'r list) = Inl (KeyError dis))
   \<and> (map_of (discoverables self) dis = Some checker \<longrightarrow>
      (get_info (self\<lparr>is_discovering := b\<rparr>) dis :: 'e error + 'r list)
         = Inr (dis_get_info checker (mdns self) (ssdp self))
      \<and> (get_entries (self\<lparr>is_discovering := b\<rparr>) dis :: 'e error + 'r list)
         = Inr (dis_get_entries checker (mdns self) (ssdp self)))
   \<and> (dis \<in> fst ` set (discoverables self) \<longrightarrow>
        (\<exists>checker. map_of (discoverables self) dis = Some checker))"
proof -
  have none: "dis \<notin> fst ` set (discoverables self) \<Longrightarrow> map_of (discoverables self) dis = None"
    by (simp add: map_of_eq_None_iff)
  have some: "dis \<in> fst ` set (discoverables self) \<Longrightarrow>
      \<exists>checker. map_of (discoverables self) dis = Some checker"
    using map_of_eq_None_iff [of "discoverables self" dis] by auto
  from none some show ?thesis
    by (auto simp: get_info_def get_entries_def)
qed

theorem lookup_unknown_type_witness:
  "''nonexistent'' \<notin> fst ` set (discoverables stub_idle)
   \<and> (get_entries (stub_idle\<lparr>is_discovering := False\<rparr>) ''nonexistent'' :: string error + string list)
        = Inl (KeyError ''nonexistent'')
   \<and> (get_entries (stub_idle\<lparr>is_discovering := True\<rparr>) ''nonexistent'' :: string error + string list)
        = Inl (KeyError ''nonexistent'')
   \<and> map_of (discoverables stub_idle) ''TypeA'' = Some TypeA
   \<and> (get_info (stub_idle\<lparr>is_discovering := True\<rparr>) ''TypeA'' :: string error + string list)
        = Inr (dis_get_info TypeA (mdns stub_idle) (ssdp stub_idle))"
proof -
  have absent: "''nonexistent'' \<notin> fst ` set (discoverables stub_idle)"
    by (simp add: stub_idle_def)
  have present: "map_of (discoverables stub_idle) ''TypeA'' = Some TypeA"
    by (simp add: stub_idle_def)
  from absent lookup_unknown_type [of "''nonexistent''" stub_idle False TypeA, where 'e = string]
  have a: "(get_entries (stub_idle\<lparr>is_discovering := False\<rparr>) ''nonexistent''
      :: string error + string list) = Inl (KeyError ''nonexistent'')"
    by blast
  from absent lookup_unknown_type [of "''nonexistent''" stub_idle True TypeA, where 'e = string]
  have b: "(get_entries (stub_idle\<lparr>is_discovering := True\<rparr>) ''nonexistent''
      :: string error + string list) = Inl (KeyError ''nonexistent'')"
    by blast
  from present lookup_unknown_type [of "''TypeA''" stub_idle True TypeA, where 'e = string]
  have c: "(get_info (stub_idle\<lparr>is_discovering := True\<rparr>) ''TypeA'' :: string error + string list)
        = Inr (dis_get_info TypeA (mdns stub_idle) (ssdp stub_idle))"
    by blast
  from absent present a b c show ?thesis by blast
qed

subsection \<open>The dictionary of checkers is fixed\<close>

lemma call_op_discoverables: "discoverables (snd (call_op E oper self)) = discoverables self"
  by (cases oper) (simp_all add: call_op_def scan_discoverables stop_discoverables)

lemma run_discoverables: "discoverables (run E opers self) = discoverables self"
  by (induction opers arbitrary: self) (simp_all add: call_op_discoverables)

text \<open>
  Claim C9. The constructor returns an idle coordinator whose dictionary is the loader's
  result, so the dictionary is complete before the first \<^verbatim>\<open>scan()\<close>; and no call of
  \<^verbatim>\<open>scan\<close>, \<^verbatim>\<open>stop\<close>, \<^verbatim>\<open>discover\<close>, \<^verbatim>\<open>get_info\<close> or \<^verbatim>\<open>get_entries\<close>, nor any
  sequence of them, changes it.
\<close>

theorem registry_fixed_after_construction:
  "(new E limit = Inr fresh \<longrightarrow>
      \<not> is_discovering fresh \<and> load_device_support E limit = Inr (discoverables fresh))
   \<and> discoverables (snd (call_op E oper self)) = discoverables self
   \<and> discoverables (run E opers self) = discoverables self
   \<and> (new E limit = Inr fresh \<longrightarrow>
        load_device_support E limit = Inr (discoverables (run E opers fresh)))"
  by (auto simp: call_op_discoverables run_discoverables new_def split: sum.splits)

theorem registry_fixed_after_construction_witness:
  "new (stub_env False) None = Inr stub_idle
   \<and> \<not> is_discovering stub_idle
   \<and> load_device_support (stub_env False) None = Inr (discoverables stub_idle)
   \<and> discoverables (run (stub_env False) [Scan, Discover, Get_info ''TypeA'', Stop, Get_entries ''x'']
        stub_idle) = discoverables stub_idle"
  using registry_fixed_after_construction
    [of "stub_env False" None stub_idle Scan stub_idle
       "[Scan, Discover, Get_info ''TypeA'', Stop, Get_entries ''x'']"] new_stub_idle
  by simp

end
